theory Spec2Isabelle
  imports Complex_Main
begin

section \<open>Data model\<close>

text \<open>
  The pipeline of \<^verbatim>\<open>prototipo_dashboard_agua.py\<close> works on pandas tables. A table is
  modelled as the list of its rows, in index order, and a row as a record with one field
  per column the functions read or write. Numbers are rationals: the model computes with
  exact arithmetic, so the rounding, the infinities and the NaN of IEEE doubles are outside
  it. A timestamp is a point in time, in seconds since the epoch; the difference of two
  timestamps is what \<^verbatim>\<open>total_seconds()\<close> returns.
\<close>

datatype py_error = KeyError | ValueError

text \<open>
  A cell of a flow column as \<^verbatim>\<open>pd.to_numeric(..., errors='coerce')\<close> sees it: a
  number, or anything that is coerced to NaN (a missing value, a text that is no number).
\<close>

datatype cell = Num rat | NonNum

text \<open>A row of the table \<^verbatim>\<open>load_data\<close> returns: the index and the columns of the CSV.\<close>

record reading =
  timestamp :: rat
  pulsos :: cell
  vazao_lmin :: cell
  raw_s1 :: cell
  raw_s2 :: cell
  raw_s3 :: cell
  raw_s4 :: cell

text \<open>
  A row of the table \<^verbatim>\<open>preprocess\<close> returns: the index \<open>ts\<close>, the columns it keeps
  (\<open>pulsos_col\<close>, \<open>vazao_col\<close>), the four sensor columns made numeric, and the columns it
  adds, under the names the source gives them.
\<close>

record derived_reading =
  ts :: rat
  pulsos_col :: cell
  vazao_col :: cell
  s1 :: rat
  s2 :: rat
  s3 :: rat
  s4 :: rat
  geral_lps :: rat
  soma_sensores_lps :: rat
  delta_s :: rat
  volume_geral_l :: rat
  volume_sensores_l :: rat
  diff_lps :: rat

datatype leak_type = hidden_leak | mismatch

text \<open>One row of the alert table: the dictionary \<^verbatim>\<open>detect_leaks\<close> appends.\<close>

record leak_event =
  ev_start :: rat
  ev_end :: rat
  duration_s :: rat
  max_diff_lps :: rat
  ev_type :: leak_type
  volume_l :: rat

section \<open>Leak detection\<close>

text \<open>
  The test of the loop body, \<^verbatim>\<open>is_mismatch or is_hidden_leak\<close>, with
  \<^verbatim>\<open>is_mismatch = diff > threshold_lps\<close> and
  \<^verbatim>\<open>is_hidden_leak = (soma == 0) and (geral > 0)\<close>.
\<close>

definition is_mismatch :: "rat \<Rightarrow> derived_reading \<Rightarrow> bool" where
  "is_mismatch threshold_lps row = (diff_lps row > threshold_lps)"

definition is_hidden_leak :: "derived_reading \<Rightarrow> bool" where
  "is_hidden_leak row = (soma_sensores_lps row = 0 \<and> geral_lps row > 0)"

definition anomalous :: "rat \<Rightarrow> derived_reading \<Rightarrow> bool" where
  "anomalous threshold_lps row = (is_mismatch threshold_lps row \<or> is_hidden_leak row)"

text \<open>
  \<^verbatim>\<open>Series.max()\<close> of a non-empty column, computed left to right. The summary calls it
  on a buffer that is not empty; the value on the empty list is never used.
\<close>

fun series_max :: "rat list \<Rightarrow> rat" where
  "series_max [] = 0"
| "series_max (x # xs) = fold max xs x"

text \<open>
  The summary of the buffered rows, written twice in the source (at a closing row and
  after the loop) with the same text. On an empty buffer \<^verbatim>\<open>pd.DataFrame([])\<close> has no
  column and \<^verbatim>\<open>rows['delta_s']\<close> raises KeyError.
\<close>

definition summarize :: "derived_reading list \<Rightarrow> py_error + leak_event" where
  "summarize alert_rows =
     (if alert_rows = [] then Inl KeyError
      else Inr \<lparr>
        ev_start = ts (hd alert_rows),
        ev_end = ts (last alert_rows),
        duration_s =
          (if length alert_rows > 1 then ts (last alert_rows) - ts (hd alert_rows)
           else sum_list (map delta_s alert_rows)),
        max_diff_lps = series_max (map diff_lps alert_rows),
        ev_type =
          (if list_all (\<lambda>r. soma_sensores_lps r = 0) alert_rows
              \<and> list_ex (\<lambda>r. geral_lps r > 0) alert_rows
           then hidden_leak else mismatch),
        volume_l = sum_list (map volume_geral_l alert_rows) \<rparr>)"

text \<open>The variables of the loop.\<close>

record loop_state =
  alerts :: "leak_event list"
  in_alert :: bool
  start :: "rat option"
  alert_rows :: "derived_reading list"

definition init_state :: loop_state where
  "init_state = \<lparr> alerts = [], in_alert = False, start = None, alert_rows = [] \<rparr>"

text \<open>
  One iteration of \<^verbatim>\<open>for ts, row in df.iterrows()\<close>. (The local \<^verbatim>\<open>end = ts\<close> of
  the closing branch is never read: the alert takes its end from the buffer.)
\<close>

definition step :: "rat \<Rightarrow> loop_state \<Rightarrow> derived_reading \<Rightarrow> py_error + loop_state" where
  "step threshold_lps st row =
     (if anomalous threshold_lps row then
        (let st1 = (if \<not> in_alert st
                    then st\<lparr> in_alert := True, start := Some (ts row), alert_rows := [] \<rparr>
                    else st)
         in Inr (st1\<lparr> alert_rows := alert_rows st1 @ [row] \<rparr>))
      else if in_alert st then
        (case summarize (alert_rows st) of
           Inl e \<Rightarrow> Inl e
         | Inr ev \<Rightarrow>
             Inr (st\<lparr> alerts := alerts st @ [ev], in_alert := False, alert_rows := [] \<rparr>))
      else Inr st)"

fun run_loop :: "rat \<Rightarrow> loop_state \<Rightarrow> derived_reading list \<Rightarrow> py_error + loop_state" where
  "run_loop threshold_lps st [] = Inr st"
| "run_loop threshold_lps st (row # df) =
     (case step threshold_lps st row of
        Inl e \<Rightarrow> Inl e
      | Inr st' \<Rightarrow> run_loop threshold_lps st' df)"

definition detect_leaks :: "rat \<Rightarrow> derived_reading list \<Rightarrow> py_error + leak_event list" where
  "detect_leaks threshold_lps df =
     (if df = [] then Inr []
      else
        (case run_loop threshold_lps init_state df of
           Inl e \<Rightarrow> Inl e
         | Inr st \<Rightarrow>
             if in_alert st \<and> alert_rows st \<noteq> [] then
               (case summarize (alert_rows st) of
                  Inl e \<Rightarrow> Inl e
                | Inr ev \<Rightarrow> Inr (alerts st @ [ev]))
             else Inr (alerts st)))"

text \<open>
  The rows of the concrete scenario: a derived reading at time \<open>t\<close> with general rate \<open>g\<close>,
  all sensors at zero and one second since the previous reading.
\<close>

definition scenario_row :: "rat \<Rightarrow> rat \<Rightarrow> derived_reading" where
  "scenario_row t g =
     \<lparr> ts = t, pulsos_col = Num 0, vazao_col = Num (g * 60),
       s1 = 0, s2 = 0, s3 = 0, s4 = 0,
       geral_lps = g, soma_sensores_lps = 0, delta_s = 1,
       volume_geral_l = g * 1, volume_sensores_l = 0 * 1, diff_lps = \<bar>g - 0\<bar> \<rparr>"

text \<open>
  The buffers of the loop, without the summaries: \<open>scan_runs P buf xs\<close> walks \<open>xs\<close> as the
  loop does, with \<open>buf\<close> for \<^verbatim>\<open>alert_rows\<close>, and returns the buffers it closes at a
  row that fails \<open>P\<close>, in order, and the buffer left open at the end.
\<close>

fun scan_runs :: "('a \<Rightarrow> bool) \<Rightarrow> 'a list \<Rightarrow> 'a list \<Rightarrow> 'a list list \<times> 'a list" where
  "scan_runs P buf [] = ([], buf)"
| "scan_runs P buf (x # xs) =
     (if P x then scan_runs P (buf @ [x]) xs
      else if buf = [] then scan_runs P [] xs
      else (case scan_runs P [] xs of (cs, b) \<Rightarrow> (buf # cs, b)))"

text \<open>
  What the specification calls the runs of a sequence: its maximal blocks of consecutive
  elements that satisfy \<open>P\<close>, in order. A block starts at an element that satisfies \<open>P\<close>,
  takes the elements after it for as long as they satisfy \<open>P\<close>, and the search goes on
  behind it.
\<close>

function maximal_runs :: "('a \<Rightarrow> bool) \<Rightarrow> 'a list \<Rightarrow> 'a list list" where
  "maximal_runs P [] = []"
| "maximal_runs P (x # xs) =
     (if P x then (x # takeWhile P xs) # maximal_runs P (dropWhile P xs)
      else maximal_runs P xs)"
  by pat_completeness auto
termination
  by (relation "measure (\<lambda>(P, xs). length xs)") (auto simp: length_dropWhile_le less_Suc_eq_le)

section \<open>Feature derivation\<close>

text \<open>
  \<^verbatim>\<open>pd.to_numeric(col, errors='coerce').fillna(0)\<close> on one cell: what is no number
  becomes NaN and then 0.
\<close>

definition to_numeric_fillna :: "cell \<Rightarrow> rat" where
  "to_numeric_fillna c = (case c of Num x \<Rightarrow> x | NonNum \<Rightarrow> 0)"

text \<open>
  \<^verbatim>\<open>df.index.to_series().diff().dt.total_seconds().fillna(1)\<close>: the difference to the
  previous index entry, in seconds; the first row has no previous entry, its NaN becomes 1.
\<close>

fun diff_fillna :: "rat list \<Rightarrow> rat list" where
  "diff_fillna [] = []"
| "diff_fillna (t # rest) = 1 # map2 (\<lambda>cur prev. cur - prev) rest (t # rest)"

text \<open>The columns of one row after the assignments of \<^verbatim>\<open>preprocess\<close>, in their order.\<close>

definition derive :: "reading \<Rightarrow> rat \<Rightarrow> derived_reading" where
  "derive r dt =
     (let geral = to_numeric_fillna (vazao_lmin r) / 60;
          c1 = to_numeric_fillna (raw_s1 r);
          c2 = to_numeric_fillna (raw_s2 r);
          c3 = to_numeric_fillna (raw_s3 r);
          c4 = to_numeric_fillna (raw_s4 r);
          soma = c1 + c2 + c3 + c4
      in \<lparr> ts = timestamp r, pulsos_col = pulsos r, vazao_col = vazao_lmin r,
           s1 = c1, s2 = c2, s3 = c3, s4 = c4,
           geral_lps = geral, soma_sensores_lps = soma, delta_s = dt,
           volume_geral_l = geral * dt, volume_sensores_l = soma * dt,
           diff_lps = \<bar>geral - soma\<bar> \<rparr>)"

text \<open>
  \<^verbatim>\<open>preprocess\<close> as a function of the table's value: an empty table is returned as it
  is, any other table gets the derived columns.
\<close>

definition preprocess :: "reading list \<Rightarrow> derived_reading list" where
  "preprocess df =
     (if df = [] then []
      else map2 derive df (diff_fillna (map timestamp df)))"

text \<open>A table of two readings, five seconds apart, for the examples below.\<close>

definition example_table :: "reading list" where
  "example_table =
     [\<lparr> timestamp = 10, pulsos = NonNum, vazao_lmin = Num 60,
         raw_s1 = Num 1, raw_s2 = NonNum, raw_s3 = Num 0, raw_s4 = Num 0 \<rparr>,
      \<lparr> timestamp = 15, pulsos = NonNum, vazao_lmin = NonNum,
         raw_s1 = Num (1 / 2), raw_s2 = Num (1 / 2), raw_s3 = Num 0, raw_s4 = Num 0 \<rparr>]"

subsection \<open>The table as an object\<close>

text \<open>
  In Python the argument of \<^verbatim>\<open>preprocess\<close> is a reference to a table that the
  caller holds too. The store is the list of the tables that exist, a reference is a
  position in it. A table holds the rows of \<^verbatim>\<open>load_data\<close> or the rows of a former
  \<^verbatim>\<open>preprocess\<close>; from the latter the function reads the same columns again (the
  index, the general flow and the four sensors).
\<close>

datatype frame = RawFrame "reading list" | DerivedFrame "derived_reading list"

type_synonym store = "frame list"

definition raw_of :: "derived_reading \<Rightarrow> reading" where
  "raw_of d =
     \<lparr> timestamp = ts d, pulsos = pulsos_col d, vazao_lmin = vazao_col d,
       raw_s1 = Num (s1 d), raw_s2 = Num (s2 d), raw_s3 = Num (s3 d), raw_s4 = Num (s4 d) \<rparr>"

fun frame_rows :: "frame \<Rightarrow> reading list" where
  "frame_rows (RawFrame rows) = rows"
| "frame_rows (DerivedFrame rows) = map raw_of rows"

text \<open>\<^verbatim>\<open>df.copy()\<close>: a new table with the same content, at a fresh position.\<close>

definition df_copy :: "store \<Rightarrow> nat \<Rightarrow> store \<times> nat" where
  "df_copy h a = (h @ [h ! a], length h)"

text \<open>The column assignments \<^verbatim>\<open>df[...] = ...\<close>: they write to the table \<open>a\<close> refers to.\<close>

definition df_assign :: "store \<Rightarrow> nat \<Rightarrow> frame \<Rightarrow> store" where
  "df_assign h a f = h[a := f]"

text \<open>
  \<^verbatim>\<open>preprocess\<close> on the store: the new store and the reference it returns. On an empty
  table it returns its argument; otherwise the local name \<^verbatim>\<open>df\<close> is bound to the copy
  and every assignment writes to the copy. A reference to no table is no input (\<open>None\<close>).
\<close>

definition preprocess_obj :: "store \<Rightarrow> nat \<Rightarrow> (store \<times> nat) option" where
  "preprocess_obj h df =
     (if \<not> df < length h then None
      else if frame_rows (h ! df) = [] then Some (h, df)
      else
        (case df_copy h df of
           (h1, cp) \<Rightarrow>
             Some (df_assign h1 cp (DerivedFrame (preprocess (frame_rows (h1 ! cp)))), cp)))"

section \<open>Aggregation\<close>

text \<open>
  \<^verbatim>\<open>aggregate_period\<close> hands the grouping to \<^verbatim>\<open>df.resample(freq)\<close> with the defaults of
  pandas. For the five rules of its docstring these are: bins of one minute, hour or day,
  closed on the left and labelled by their left edge; bins of one week (Monday to Sunday)
  or one calendar month, closed on the right and labelled by their last day at 00:00.
  The result has one row for every bin from the bin of the earliest row to the bin of the
  latest, and \<^verbatim>\<open>sum\<close> of a bin without rows is 0.
\<close>

datatype freq = T_minuto | H_hora | D_dia | W_semana | M_mes

text \<open>The day of a timestamp, counted from 1970-01-01 (a Thursday).\<close>

definition day_of :: "rat \<Rightarrow> int" where
  "day_of t = \<lfloor>t / 86400\<rfloor>"

text \<open>Months are counted from January 1970, month \<open>k\<close> is month \<open>k mod 12 + 1\<close> of year \<open>1970 + k div 12\<close>.\<close>

definition is_leap :: "int \<Rightarrow> bool" where
  "is_leap y = (if y mod 100 = 0 then y mod 400 = 0 else y mod 4 = 0)"

definition month_len :: "int \<Rightarrow> int" where
  "month_len k =
     (let y = 1970 + k div 12; m = k mod 12 + 1
      in if m = 2 then (if is_leap y then 29 else 28)
         else if m = 4 \<or> m = 6 \<or> m = 9 \<or> m = 11 then 30
         else 31)"

text \<open>The first day of month \<open>n\<close> and of month \<open>- n\<close>.\<close>

fun month_start_from :: "nat \<Rightarrow> int" where
  "month_start_from 0 = 0"
| "month_start_from (Suc n) = month_start_from n + month_len (int n)"

fun month_start_before :: "nat \<Rightarrow> int" where
  "month_start_before 0 = 0"
| "month_start_before (Suc n) = month_start_before n - month_len (- int (Suc n))"

definition month_start :: "int \<Rightarrow> int" where
  "month_start k = (if 0 \<le> k then month_start_from (nat k) else month_start_before (nat (- k)))"

text \<open>The month of a day: the search runs upwards from a month that starts on or before it.\<close>

function find_month :: "int \<Rightarrow> int \<Rightarrow> int \<Rightarrow> int" where
  "find_month k hi d =
     (if k < hi \<and> month_start (k + 1) \<le> d then find_month (k + 1) hi d else k)"
  by pat_completeness auto
termination
  by (relation "measure (\<lambda>(k, hi, d). nat (hi - k))") auto

definition month_index :: "int \<Rightarrow> int" where
  "month_index d =
     (if 0 \<le> d then find_month (d div 31) (d div 28) d
      else find_month (d div 28) (d div 31) d)"

text \<open>
  The day of the week of a day, Monday 0 to Sunday 6 as \<^verbatim>\<open>weekday()\<close> counts, and the
  day of the month of a day, from 1.
\<close>

definition weekday :: "int \<Rightarrow> int" where
  "weekday d = (d + 3) mod 7"

definition day_of_month :: "int \<Rightarrow> int" where
  "day_of_month d = d - month_start (month_index d) + 1"

text \<open>The number of the bin of a timestamp, and the label pandas gives to bin \<open>k\<close>.\<close>

fun bin_index :: "freq \<Rightarrow> rat \<Rightarrow> int" where
  "bin_index T_minuto t = \<lfloor>t / 60\<rfloor>"
| "bin_index H_hora t = \<lfloor>t / 3600\<rfloor>"
| "bin_index D_dia t = day_of t"
| "bin_index W_semana t = (day_of t + 3) div 7"
| "bin_index M_mes t = month_index (day_of t)"

fun bin_label :: "freq \<Rightarrow> int \<Rightarrow> rat" where
  "bin_label T_minuto k = 60 * of_int k"
| "bin_label H_hora k = 3600 * of_int k"
| "bin_label D_dia k = 86400 * of_int k"
| "bin_label W_semana k = 86400 * of_int (7 * k + 3)"
| "bin_label M_mes k = 86400 * of_int (month_start (k + 1) - 1)"

text \<open>One row of the aggregated table.\<close>

record aggregate_bucket =
  bucket_key :: rat
  agg_volume_geral_l :: rat
  agg_volume_sensores_l :: rat
  agg_s1 :: rat
  agg_s2 :: rat
  agg_s3 :: rat
  agg_s4 :: rat
  m3 :: rat
  custo :: rat

definition TARIFA_POR_M3 :: rat where
  "TARIFA_POR_M3 = 450 / 100"

definition bucket :: "freq \<Rightarrow> derived_reading list \<Rightarrow> int \<Rightarrow> aggregate_bucket" where
  "bucket f df k =
     (let rows = filter (\<lambda>r. bin_index f (ts r) = k) df;
          vol = sum_list (map volume_geral_l rows)
      in \<lparr> bucket_key = bin_label f k,
           agg_volume_geral_l = vol,
           agg_volume_sensores_l = sum_list (map volume_sensores_l rows),
           agg_s1 = sum_list (map s1 rows),
           agg_s2 = sum_list (map s2 rows),
           agg_s3 = sum_list (map s3 rows),
           agg_s4 = sum_list (map s4 rows),
           m3 = vol / 1000,
           custo = (vol / 1000) * TARIFA_POR_M3 \<rparr>)"

definition aggregate_period :: "freq \<Rightarrow> derived_reading list \<Rightarrow> aggregate_bucket list" where
  "aggregate_period f df =
     (if df = [] then []
      else
        (let ks = map (\<lambda>r. bin_index f (ts r)) df
         in map (bucket f df) [Min (set ks) .. Max (set ks)]))"

text \<open>
  The interval a bin covers, from its label: the bin labelled \<open>key\<close> holds the rows with
  \<open>bucket_first f key \<le> ts\<close> and \<open>ts < bucket_limit f key\<close>.
\<close>

fun bucket_first :: "freq \<Rightarrow> rat \<Rightarrow> rat" where
  "bucket_first T_minuto key = key"
| "bucket_first H_hora key = key"
| "bucket_first D_dia key = key"
| "bucket_first W_semana key = key - 6 * 86400"
| "bucket_first M_mes key = 86400 * of_int (month_start (month_index (day_of key)))"

fun bucket_limit :: "freq \<Rightarrow> rat \<Rightarrow> rat" where
  "bucket_limit T_minuto key = key + 60"
| "bucket_limit H_hora key = key + 3600"
| "bucket_limit D_dia key = key + 86400"
| "bucket_limit W_semana key = key + 86400"
| "bucket_limit M_mes key = key + 86400"

definition in_bucket :: "freq \<Rightarrow> rat \<Rightarrow> derived_reading \<Rightarrow> bool" where
  "in_bucket f key r = (bucket_first f key \<le> ts r \<and> ts r < bucket_limit f key)"

section \<open>Loading\<close>

text \<open>
  The timestamp cell of a CSV row as \<^verbatim>\<open>pd.to_datetime\<close> sees it: a text it parses to
  a point in time, or a text it cannot parse. (Missing cells, which become NaT, are not
  modelled.)
\<close>

datatype ts_cell = Parsed rat | Unparseable

text \<open>
  A row of the table \<^verbatim>\<open>pd.read_csv\<close> returns, with its columns found under their
  stripped names. A flow column that the file does not have is \<open>None\<close>.
\<close>

record csv_row =
  csv_timestamp :: ts_cell
  csv_pulsos :: cell
  csv_vazao :: "cell option"
  csv_s1 :: "cell option"
  csv_s2 :: "cell option"
  csv_s3 :: "cell option"
  csv_s4 :: "cell option"

text \<open>
  \<^verbatim>\<open>pd.to_datetime(column)\<close> with its default \<^verbatim>\<open>errors='raise'\<close>: one cell that does
  not parse raises.
\<close>

fun to_datetime :: "ts_cell list \<Rightarrow> py_error + rat list" where
  "to_datetime [] = Inr []"
| "to_datetime (Unparseable # cells) = Inl ValueError"
| "to_datetime (Parsed t # cells) =
     (case to_datetime cells of Inl e \<Rightarrow> Inl e | Inr tsl \<Rightarrow> Inr (t # tsl))"

text \<open>\<^verbatim>\<open>if c not in df.columns: df[c] = 0\<close>.\<close>

definition fill_missing :: "cell option \<Rightarrow> cell" where
  "fill_missing c = (case c of None \<Rightarrow> Num 0 | Some v \<Rightarrow> v)"

definition indexed :: "csv_row \<Rightarrow> rat \<Rightarrow> reading" where
  "indexed r t =
     \<lparr> timestamp = t, pulsos = csv_pulsos r, vazao_lmin = fill_missing (csv_vazao r),
       raw_s1 = fill_missing (csv_s1 r), raw_s2 = fill_missing (csv_s2 r),
       raw_s3 = fill_missing (csv_s3 r), raw_s4 = fill_missing (csv_s4 r) \<rparr>"

text \<open>
  \<^verbatim>\<open>load_data\<close>. The source is \<open>None\<close> when no file exists at the path, and
  otherwise the rows of the table \<^verbatim>\<open>pd.read_csv\<close> returned (a file it rejects is not
  modelled). \<^verbatim>\<open>sort_values\<close> is modelled by \<^const>\<open>sort_key\<close>; pandas
  sorts with \<^verbatim>\<open>kind='quicksort'\<close> by default and promises no order among equal
  timestamps, and nothing below depends on that order.
\<close>

definition load_data :: "csv_row list option \<Rightarrow> py_error + reading list" where
  "load_data src =
     (case src of
        None \<Rightarrow> Inr []
      | Some rows \<Rightarrow>
          (case to_datetime (map csv_timestamp rows) of
             Inl e \<Rightarrow> Inl e
           | Inr tsl \<Rightarrow> Inr (sort_key timestamp (map2 indexed rows tsl))))"

section \<open>The loop computes the summaries of the maximal runs\<close>

lemma summarize_nonempty: "buf \<noteq> [] \<Longrightarrow> \<exists>ev. summarize buf = Inr ev"
  by (simp add: summarize_def)

text \<open>
  The invariant of the loop: \<^verbatim>\<open>in_alert\<close> holds exactly when the buffer is not empty.
  Under it no iteration raises, the buffer follows \<^const>\<open>scan_runs\<close>, and the alerts
  appended are the summaries of the buffers closed.
\<close>

lemma run_loop_scan:
  "in_alert st = (alert_rows st \<noteq> []) \<Longrightarrow>
   \<exists>st'. run_loop th st df = Inr st'
     \<and> alert_rows st' = snd (scan_runs (anomalous th) (alert_rows st) df)
     \<and> in_alert st' = (alert_rows st' \<noteq> [])
     \<and> map Inr (alerts st') =
         map Inr (alerts st) @ map summarize (fst (scan_runs (anomalous th) (alert_rows st) df))"
proof (induction df arbitrary: st)
  case Nil
  then show ?case by simp
next
  case (Cons row df)
  show ?case
  proof (cases "anomalous th row")
    case True
    define st0 where "st0 =
      (if \<not> in_alert st
       then st\<lparr> in_alert := True, start := Some (ts row), alert_rows := [] \<rparr>
       else st)"
    define st1 where "st1 = st0\<lparr> alert_rows := alert_rows st0 @ [row] \<rparr>"
    have s: "step th st row = Inr st1"
      using True by (simp add: step_def st1_def st0_def Let_def)
    have a: "alert_rows st1 = alert_rows st @ [row]" "in_alert st1" "alerts st1 = alerts st"
      using Cons.prems by (auto simp: st1_def st0_def)
    have "in_alert st1 = (alert_rows st1 \<noteq> [])"
      using a by simp
    from Cons.IH[OF this] show ?thesis
      using s a True by simp
  next
    case False
    show ?thesis
    proof (cases "in_alert st")
      case True
      then have ne: "alert_rows st \<noteq> []"
        using Cons.prems by simp
      then obtain ev where ev: "summarize (alert_rows st) = Inr ev"
        using summarize_nonempty by blast
      define st1 where
        "st1 = st\<lparr> alerts := alerts st @ [ev], in_alert := False, alert_rows := [] \<rparr>"
      have s: "step th st row = Inr st1"
        using False True ev by (simp add: step_def st1_def)
      have "in_alert st1 = (alert_rows st1 \<noteq> [])"
        by (simp add: st1_def)
      from Cons.IH[OF this] show ?thesis
        using s False ne ev by (auto simp: st1_def split: prod.splits)
    next
      case idle: False
      then have e: "alert_rows st = []"
        using Cons.prems by simp
      have s: "step th st row = Inr st"
        using False idle by (simp add: step_def)
      from Cons.IH[OF Cons.prems] show ?thesis
        using s False e by simp
    qed
  qed
qed

text \<open>The closed buffers, and the open one if any, are the maximal runs.\<close>

lemma scan_runs_maximal:
  "(case scan_runs P buf xs of (cs, b) \<Rightarrow> if b = [] then cs else cs @ [b]) =
     (if buf = [] then maximal_runs P xs
      else (buf @ takeWhile P xs) # maximal_runs P (dropWhile P xs))"
proof (induction xs arbitrary: buf)
  case Nil
  then show ?case by simp
next
  case (Cons x xs)
  show ?case
  proof (cases "P x")
    case True
    then show ?thesis
      using Cons.IH[of "buf @ [x]"] by simp
  next
    case False
    then show ?thesis
      using Cons.IH[of "[]"] by (auto simp: split_beta split: if_splits)
  qed
qed

lemma detect_leaks_refines:
  "\<exists>evs. detect_leaks th df = Inr evs
     \<and> map Inr evs = map summarize (maximal_runs (anomalous th) df)"
proof (cases "df = []")
  case True
  then show ?thesis by (simp add: detect_leaks_def)
next
  case False
  let ?sc = "scan_runs (anomalous th) [] df"
  have runs: "maximal_runs (anomalous th) df =
      (if snd ?sc = [] then fst ?sc else fst ?sc @ [snd ?sc])"
    using scan_runs_maximal[of "anomalous th" "[]" df] by (simp add: split_beta)
  have "in_alert init_state = (alert_rows init_state \<noteq> [])"
    by (simp add: init_state_def)
  from run_loop_scan[OF this, of th df] obtain st' where
    r: "run_loop th init_state df = Inr st'" and
    b: "alert_rows st' = snd ?sc" and
    i: "in_alert st' = (alert_rows st' \<noteq> [])" and
    m: "map Inr (alerts st') = map summarize (fst ?sc)"
    by (auto simp: init_state_def)
  show ?thesis
  proof (cases "alert_rows st' = []")
    case True
    then show ?thesis
      using False r b i m runs by (simp add: detect_leaks_def)
  next
    case open_run: False
    then obtain ev where ev: "summarize (alert_rows st') = Inr ev"
      using summarize_nonempty by blast
    then show ?thesis
      using False r b i m open_run runs by (simp add: detect_leaks_def)
  qed
qed

subsection \<open>Properties of the maximal runs\<close>

lemma filter_takeWhile_dropWhile:
  "takeWhile P xs @ filter P (dropWhile P xs) = filter P xs"
  by (induction xs) auto

lemma maximal_runs_concat: "concat (maximal_runs P xs) = filter P xs"
  by (induction P xs rule: maximal_runs.induct) (auto simp: filter_takeWhile_dropWhile)

lemma maximal_runs_nonempty: "[] \<notin> set (maximal_runs P xs)"
  by (induction P xs rule: maximal_runs.induct) auto

lemma maximal_runs_all: "c \<in> set (maximal_runs P xs) \<Longrightarrow> r \<in> set c \<Longrightarrow> P r"
  by (induction P xs rule: maximal_runs.induct) (auto split: if_splits dest: set_takeWhileD)

text \<open>The last run of a sequence that ends inside a run is its longest suffix within \<open>P\<close>.\<close>

lemma maximal_runs_last:
  "xs \<noteq> [] \<Longrightarrow> P (last xs) \<Longrightarrow>
     maximal_runs P xs \<noteq> [] \<and> last (maximal_runs P xs) = rev (takeWhile P (rev xs))"
proof (induction P xs rule: maximal_runs.induct)
  case (1 P)
  then show ?case by simp
next
  case (2 P x xs)
  show ?case
  proof (cases "P x")
    case True
    show ?thesis
    proof (cases "dropWhile P xs = []")
      case whole: True
      then have a: "\<forall>y\<in>set xs. P y"
        by simp
      have d: "maximal_runs P (dropWhile P xs) = []"
        by (simp only: whole maximal_runs.simps)
      have "takeWhile P xs = xs" "takeWhile P (rev xs @ [x]) = rev xs @ [x]"
        using a True by (simp_all add: takeWhile_eq_all_conv)
      then show ?thesis
        using True d by (simp del: takeWhile_eq_all_conv)
    next
      case rest: False
      then have "last (dropWhile P xs) = last xs"
        by (metis last_appendR takeWhile_dropWhile_id)
      moreover have "xs \<noteq> []"
        using rest by auto
      ultimately have ih: "maximal_runs P (dropWhile P xs) \<noteq> [] \<and>
          last (maximal_runs P (dropWhile P xs)) = rev (takeWhile P (rev (dropWhile P xs)))"
        using 2 True rest by simp
      have "\<not> (\<forall>y\<in>set xs. P y)"
        using rest by simp
      then obtain y where y: "y \<in> set (dropWhile P xs)" "\<not> P y"
        by (metis rest hd_dropWhile hd_in_set)
      have "takeWhile P (rev xs) = takeWhile P (rev (dropWhile P xs) @ rev (takeWhile P xs))"
        by (metis rev_append takeWhile_dropWhile_id)
      also have "\<dots> = takeWhile P (rev (dropWhile P xs))"
        using y by (intro takeWhile_append1[of y]) auto
      finally have t: "takeWhile P (rev xs) = takeWhile P (rev (dropWhile P xs))" .
      have "y \<in> set xs"
        using y(1) by (meson set_dropWhileD)
      then have "takeWhile P (rev xs @ [x]) = takeWhile P (rev xs)"
        using y(2) by (intro takeWhile_append1[of y]) auto
      then show ?thesis
        using True ih t by simp
    qed
  next
    case False
    then have ne: "xs \<noteq> []"
      using 2 by auto
    then have "last xs = last (x # xs)"
      by simp
    then have ih: "maximal_runs P xs \<noteq> [] \<and>
        last (maximal_runs P xs) = rev (takeWhile P (rev xs))"
      using 2 False ne by simp
    have "takeWhile P (rev xs @ [x]) = takeWhile P (rev xs)"
      using False by (simp add: takeWhile_tail)
    then show ?thesis
      using False ih by simp
  qed
qed

subsection \<open>From the summaries to the fields of an event\<close>

lemma list_all2_summarize:
  assumes "map Inr evs = map summarize runs"
    and "\<And>ev run. run \<in> set runs \<Longrightarrow> summarize run = Inr ev \<Longrightarrow> Q ev run"
  shows "list_all2 Q evs runs"
proof -
  have len: "length evs = length runs"
    using assms(1) by (metis length_map)
  show ?thesis
    unfolding list_all2_conv_all_nth
  proof (intro conjI allI impI)
    show "length evs = length runs" by (rule len)
  next
    fix i
    assume i: "i < length evs"
    have "summarize (runs ! i) = map summarize runs ! i"
      using i len by simp
    also have "\<dots> = map Inr evs ! i"
      by (simp only: assms(1))
    also have "\<dots> = Inr (evs ! i)"
      using i by simp
    finally have "summarize (runs ! i) = Inr (evs ! i)" .
    moreover have "runs ! i \<in> set runs"
      using i len by simp
    ultimately show "Q (evs ! i) (runs ! i)"
      by (rule assms(2)[rotated])
  qed
qed

lemma series_max_Max: "xs \<noteq> [] \<Longrightarrow> series_max xs = Max (set xs)"
  by (cases xs) (simp_all add: Max.set_eq_fold del: set_simps)

lemma summarize_fields:
  assumes "summarize run = Inr ev" and "run \<noteq> []"
  shows "ev_start ev = ts (hd run)" and "ev_end ev = ts (last run)"
    and "duration_s ev = (if length run > 1 then ts (last run) - ts (hd run) else delta_s (hd run))"
    and "max_diff_lps ev = Max (diff_lps ` set run)"
    and "volume_l ev = (\<Sum>r\<leftarrow>run. volume_geral_l r)"
    and "ev_type ev =
          (if (\<forall>r\<in>set run. soma_sensores_lps r = 0) \<and> (\<exists>r\<in>set run. geral_lps r > 0)
           then hidden_leak else mismatch)"
proof -
  obtain r rs where run: "run = r # rs"
    using assms(2) by (cases run) auto
  have ev: "ev = \<lparr>
        ev_start = ts (hd run),
        ev_end = ts (last run),
        duration_s =
          (if length run > 1 then ts (last run) - ts (hd run)
           else sum_list (map delta_s run)),
        max_diff_lps = series_max (map diff_lps run),
        ev_type =
          (if list_all (\<lambda>r. soma_sensores_lps r = 0) run
              \<and> list_ex (\<lambda>r. geral_lps r > 0) run
           then hidden_leak else mismatch),
        volume_l = sum_list (map volume_geral_l run) \<rparr>"
    using assms by (simp add: summarize_def)
  show "ev_start ev = ts (hd run)" "ev_end ev = ts (last run)"
       "volume_l ev = (\<Sum>r\<leftarrow>run. volume_geral_l r)"
    by (simp_all add: ev)
  show "duration_s ev = (if length run > 1 then ts (last run) - ts (hd run) else delta_s (hd run))"
    by (cases rs) (simp_all add: ev run)
  show "max_diff_lps ev = Max (diff_lps ` set run)"
    using assms(2) by (simp add: ev series_max_Max)
  show "ev_type ev =
          (if (\<forall>r\<in>set run. soma_sensores_lps r = 0) \<and> (\<exists>r\<in>set run. geral_lps r > 0)
           then hidden_leak else mismatch)"
    by (simp add: ev list_all_iff list_ex_iff)
qed

section \<open>The bins of the aggregation\<close>

subsection \<open>The calendar\<close>

lemma month_len_bounds: "28 \<le> month_len k" "month_len k \<le> 31"
  by (simp_all add: month_len_def Let_def)

lemma month_start_step: "month_start (k + 1) = month_start k + month_len k"
proof -
  consider "0 \<le> k" | "k = -1" | "k < -1" by linarith
  then show ?thesis
  proof cases
    case 1
    then have "nat (k + 1) = Suc (nat k)" by simp
    then show ?thesis using 1 by (simp add: month_start_def)
  next
    case 2
    then show ?thesis by (simp add: month_start_def)
  next
    case 3
    then have n: "nat (- k) = Suc (nat (- (k + 1)))" by simp
    have "- int (Suc (nat (- (k + 1)))) = k" using 3 by simp
    then show ?thesis using 3 by (simp add: month_start_def n del: nat_diff_distrib)
  qed
qed

lemma month_start_from_bounds:
  "28 * int n \<le> month_start_from n \<and> month_start_from n \<le> 31 * int n"
proof (induction n)
  case 0
  then show ?case by simp
next
  case (Suc n)
  then show ?case
    using month_len_bounds[of "int n"] by simp
qed

lemma month_start_before_bounds:
  "- 31 * int n \<le> month_start_before n \<and> month_start_before n \<le> - 28 * int n"
proof (induction n)
  case 0
  then show ?case by simp
next
  case (Suc n)
  then show ?case
    using month_len_bounds[of "- int (Suc n)"] by simp
qed

lemma month_start_nonneg: "0 \<le> k \<Longrightarrow> 28 * k \<le> month_start k \<and> month_start k \<le> 31 * k"
  using month_start_from_bounds[of "nat k"] by (simp add: month_start_def)

lemma month_start_nonpos: "k \<le> 0 \<Longrightarrow> 31 * k \<le> month_start k \<and> month_start k \<le> 28 * k"
  using month_start_before_bounds[of "nat (- k)"] by (cases "k = 0") (simp_all add: month_start_def)

lemma month_start_less_add: "month_start k < month_start (k + 1 + int n)"
proof (induction n)
  case 0
  then show ?case
    using month_start_step[of k] month_len_bounds(1)[of k] by simp
next
  case (Suc n)
  have "month_start (k + 1 + int (Suc n)) = month_start (k + 1 + int n) + month_len (k + 1 + int n)"
    using month_start_step[of "k + 1 + int n"] by (simp add: add.commute add.left_commute)
  then show ?case
    using Suc month_len_bounds(1)[of "k + 1 + int n"] by simp
qed

lemma month_start_mono: "k < j \<Longrightarrow> month_start k < month_start j"
  using month_start_less_add[of k "nat (j - k - 1)"] by simp

lemma find_month_range:
  "k \<le> hi \<Longrightarrow> month_start k \<le> d \<Longrightarrow> d < month_start (hi + 1) \<Longrightarrow>
     month_start (find_month k hi d) \<le> d \<and> d < month_start (find_month k hi d + 1)"
proof (induction k hi d rule: find_month.induct)
  case (1 k hi d)
  show ?case
  proof (cases "k < hi \<and> month_start (k + 1) \<le> d")
    case True
    then show ?thesis using 1 by simp
  next
    case False
    then have "k = hi \<or> d < month_start (k + 1)" using 1(2) by auto
    then have "d < month_start (k + 1)" using 1(4) by auto
    then show ?thesis using False 1(3) by simp
  qed
qed

lemma month_index_range:
  "month_start (month_index d) \<le> d \<and> d < month_start (month_index d + 1)"
proof (cases "0 \<le> d")
  case True
  have a: "d div 31 \<le> d div 28" using True by (simp add: zdiv_mono2)
  have b: "month_start (d div 31) \<le> d"
    using month_start_nonneg[of "d div 31"] True by (simp add: pos_imp_zdiv_nonneg_iff) linarith
  have c: "d < month_start (d div 28 + 1)"
    using month_start_nonneg[of "d div 28 + 1"] True by (simp add: pos_imp_zdiv_nonneg_iff) linarith
  show ?thesis
    using find_month_range[OF a b c] True by (simp add: month_index_def)
next
  case False
  have a: "d div 28 \<le> d div 31" using False by (simp add: zdiv_mono2_neg)
  have n: "d div 28 \<le> 0" "d div 31 + 1 \<le> 0" using False by presburger+
  have b: "month_start (d div 28) \<le> d"
    using month_start_nonpos[OF n(1)] by linarith
  have "d < 31 * (d div 31 + 1)"
    by presburger
  then have c: "d < month_start (d div 31 + 1)"
    using month_start_nonpos[OF n(2)] by linarith
  show ?thesis
    using find_month_range[OF a b c] False by (simp add: month_index_def)
qed

lemma month_index_eq_iff:
  "month_index d = k \<longleftrightarrow> month_start k \<le> d \<and> d < month_start (k + 1)"
proof
  assume "month_index d = k"
  then show "month_start k \<le> d \<and> d < month_start (k + 1)"
    using month_index_range[of d] by simp
next
  assume a: "month_start k \<le> d \<and> d < month_start (k + 1)"
  let ?j = "month_index d"
  have r: "month_start ?j \<le> d \<and> d < month_start (?j + 1)"
    by (rule month_index_range)
  show "?j = k"
  proof (rule ccontr)
    assume "?j \<noteq> k"
    then consider "?j < k" | "k < ?j" by linarith
    then show False
    proof cases
      case 1
      then have "month_start (?j + 1) \<le> month_start k"
        using month_start_mono[of "?j + 1" k] by (cases "?j + 1 = k") auto
      then show False using a r by linarith
    next
      case 2
      then have "month_start (k + 1) \<le> month_start ?j"
        using month_start_mono[of "k + 1" ?j] by (cases "k + 1 = ?j") auto
      then show False using a r by linarith
    qed
  qed
qed

subsection \<open>A bin holds the timestamps between its first instant and its limit\<close>

lemma floor_div_eq_iff:
  fixes t :: rat
  assumes "0 < c"
  shows "\<lfloor>t / c\<rfloor> = k \<longleftrightarrow> c * of_int k \<le> t \<and> t < c * of_int k + c"
proof -
  have "\<lfloor>t / c\<rfloor> = k \<longleftrightarrow> of_int k \<le> t / c \<and> t / c < of_int k + 1"
    by (rule floor_eq_iff)
  also have "of_int k \<le> t / c \<longleftrightarrow> c * of_int k \<le> t"
    using assms by (simp add: le_divide_eq mult.commute)
  also have "t / c < of_int k + 1 \<longleftrightarrow> t < c * of_int k + c"
    using assms by (simp add: divide_less_eq algebra_simps)
  finally show ?thesis .
qed

lemma day_of_range:
  "a \<le> day_of t \<and> day_of t < b \<longleftrightarrow> 86400 * of_int a \<le> t \<and> t < 86400 * of_int b"
proof -
  have "a \<le> day_of t \<longleftrightarrow> of_int a \<le> t / 86400"
    by (simp add: day_of_def le_floor_iff)
  moreover have "day_of t < b \<longleftrightarrow> t / 86400 < of_int b"
    by (simp add: day_of_def floor_less_iff)
  ultimately show ?thesis
    by (simp add: le_divide_eq divide_less_eq mult.commute)
qed

lemma day_of_midnight: "day_of (86400 * of_int n) = n"
  by (simp add: day_of_def)

lemma month_of_label: "month_index (month_start (k + 1) - 1) = k"
  unfolding month_index_eq_iff
  using month_start_step[of k] month_len_bounds(1)[of k] by simp

lemma month_label_first:
  "bucket_first M_mes (bin_label M_mes k) = 86400 * of_int (month_start k)"
  by (simp only: bucket_first.simps bin_label.simps day_of_midnight month_of_label)

lemma month_label_limit:
  "bucket_limit M_mes (bin_label M_mes k) = 86400 * of_int (month_start (k + 1))"
  by simp

lemma bin_index_iff:
  "bin_index f t = k \<longleftrightarrow>
     bucket_first f (bin_label f k) \<le> t \<and> t < bucket_limit f (bin_label f k)"
proof (cases f)
  case T_minuto
  then show ?thesis using floor_div_eq_iff[of 60 t k] by simp
next
  case H_hora
  then show ?thesis using floor_div_eq_iff[of 3600 t k] by simp
next
  case D_dia
  then show ?thesis using floor_div_eq_iff[of 86400 t k] by (simp add: day_of_def)
next
  case W_semana
  have "(day_of t + 3) div 7 = k \<longleftrightarrow> 7 * k - 3 \<le> day_of t \<and> day_of t < 7 * k + 4"
    by presburger
  also have "\<dots> \<longleftrightarrow> 86400 * of_int (7 * k - 3) \<le> t \<and> t < 86400 * of_int (7 * k + 4)"
    by (rule day_of_range)
  finally show ?thesis using W_semana by (simp add: algebra_simps)
next
  case M_mes
  have "month_index (day_of t) = k \<longleftrightarrow>
      month_start k \<le> day_of t \<and> day_of t < month_start (k + 1)"
    by (rule month_index_eq_iff)
  also have "\<dots> \<longleftrightarrow> 86400 * of_int (month_start k) \<le> t
      \<and> t < 86400 * of_int (month_start (k + 1))"
    by (rule day_of_range)
  finally show ?thesis
    unfolding M_mes bin_index.simps month_label_first month_label_limit .
qed

lemma bucket_rows:
  "filter (\<lambda>r. bin_index f (ts r) = k) df = filter (in_bucket f (bin_label f k)) df"
  by (rule filter_cong) (simp_all add: in_bucket_def bin_index_iff)

text \<open>
  The labels of the weekly bins are Sundays at 00:00 and the bin starts on the Monday six
  days before; the labels of the monthly bins are last days of a month at 00:00 and the bin
  starts on the first day of that month.
\<close>

lemma month_of_first: "month_index (month_start k) = k"
  unfolding month_index_eq_iff
  using month_start_step[of k] month_len_bounds(1)[of k] by simp

lemma week_label:
  "bin_label W_semana k = 86400 * of_int (day_of (bin_label W_semana k))"
  "weekday (day_of (bin_label W_semana k)) = 6"
  "bucket_first W_semana (bin_label W_semana k) =
     86400 * of_int (day_of (bucket_first W_semana (bin_label W_semana k)))"
  "weekday (day_of (bucket_first W_semana (bin_label W_semana k))) = 0"
  "bucket_first W_semana (bin_label W_semana k) = bin_label W_semana k - 6 * 86400"
  "bucket_limit W_semana (bin_label W_semana k) = bin_label W_semana k + 86400"
proof -
  have l: "day_of (bin_label W_semana k) = 7 * k + 3"
    unfolding bin_label.simps by (rule day_of_midnight)
  have "bucket_first W_semana (bin_label W_semana k) = 86400 * of_int (7 * k - 3)"
    by simp
  then have f: "day_of (bucket_first W_semana (bin_label W_semana k)) = 7 * k - 3"
    by (simp only: day_of_midnight)
  show "bin_label W_semana k = 86400 * of_int (day_of (bin_label W_semana k))"
    unfolding l by simp
  show "weekday (day_of (bin_label W_semana k)) = 6"
    unfolding l weekday_def by presburger
  show "bucket_first W_semana (bin_label W_semana k) =
     86400 * of_int (day_of (bucket_first W_semana (bin_label W_semana k)))"
    unfolding f by simp
  show "weekday (day_of (bucket_first W_semana (bin_label W_semana k))) = 0"
    unfolding f weekday_def by presburger
  show "bucket_first W_semana (bin_label W_semana k) = bin_label W_semana k - 6 * 86400"
    by simp
  show "bucket_limit W_semana (bin_label W_semana k) = bin_label W_semana k + 86400"
    by simp
qed

lemma month_label:
  "bin_label M_mes k = 86400 * of_int (day_of (bin_label M_mes k))"
  "day_of_month (day_of (bin_label M_mes k)) = month_len (month_index (day_of (bin_label M_mes k)))"
  "bucket_first M_mes (bin_label M_mes k) =
     86400 * of_int (day_of (bucket_first M_mes (bin_label M_mes k)))"
  "day_of_month (day_of (bucket_first M_mes (bin_label M_mes k))) = 1"
  "month_index (day_of (bucket_first M_mes (bin_label M_mes k))) =
     month_index (day_of (bin_label M_mes k))"
  "bucket_limit M_mes (bin_label M_mes k) = bin_label M_mes k + 86400"
proof -
  have l: "day_of (bin_label M_mes k) = month_start (k + 1) - 1"
    unfolding bin_label.simps by (rule day_of_midnight)
  have f: "day_of (bucket_first M_mes (bin_label M_mes k)) = month_start k"
    unfolding month_label_first by (rule day_of_midnight)
  show "bin_label M_mes k = 86400 * of_int (day_of (bin_label M_mes k))"
    unfolding l by simp
  show "day_of_month (day_of (bin_label M_mes k)) =
      month_len (month_index (day_of (bin_label M_mes k)))"
    unfolding l day_of_month_def month_of_label
    using month_start_step[of k] by simp
  show "bucket_first M_mes (bin_label M_mes k) =
     86400 * of_int (day_of (bucket_first M_mes (bin_label M_mes k)))"
    unfolding f by (rule month_label_first)
  show "day_of_month (day_of (bucket_first M_mes (bin_label M_mes k))) = 1"
    unfolding f day_of_month_def month_of_first by simp
  show "month_index (day_of (bucket_first M_mes (bin_label M_mes k))) =
     month_index (day_of (bin_label M_mes k))"
    unfolding f l month_of_first month_of_label by (rule refl)
  show "bucket_limit M_mes (bin_label M_mes k) = bin_label M_mes k + 86400"
    by simp
qed

lemma aggregate_period_set:
  "set (aggregate_period f df) =
     (if df = [] then {}
      else bucket f df ` {Min ((\<lambda>r. bin_index f (ts r)) ` set df) .. Max ((\<lambda>r. bin_index f (ts r)) ` set df)})"
  by (simp add: aggregate_period_def Let_def)

lemma bucket_of_reading:
  assumes "r \<in> set df"
  shows "bucket f df (bin_index f (ts r)) \<in> set (aggregate_period f df)"
proof -
  let ?K = "(\<lambda>r. bin_index f (ts r)) ` set df"
  have "finite ?K" "bin_index f (ts r) \<in> ?K"
    using assms by simp_all
  then have "Min ?K \<le> bin_index f (ts r)" "bin_index f (ts r) \<le> Max ?K"
    by simp_all
  then show ?thesis
    using assms by (auto simp: aggregate_period_set)
qed

section \<open>The concrete scenario\<close>

text \<open>
  Claim C1. Five derived readings at t = 0, 1, 2, 3, 4 s with general rate
  0, 0, 1.0, 1.0, 0, sensor sum 0, one elapsed second each, threshold 0.2: the detector
  returns exactly one event, of type hidden leak, from t = 2 to t = 3, lasting 1 s, with
  volume 2.0 (and peak discrepancy 1.0).
\<close>

theorem detect_leaks_scenario:
  "detect_leaks (2 / 10)
     [scenario_row 0 0, scenario_row 1 0, scenario_row 2 1, scenario_row 3 1, scenario_row 4 0]
   = Inr [\<lparr> ev_start = 2, ev_end = 3, duration_s = 1, max_diff_lps = 1,
            ev_type = hidden_leak, volume_l = 2 \<rparr>]"
  by (simp add: detect_leaks_def init_state_def step_def anomalous_def is_mismatch_def
      is_hidden_leak_def summarize_def scenario_row_def)

section \<open>Which readings the events hold\<close>

text \<open>
  Claim C2. For every table and every threshold (so for every non-negative one), the
  detector never raises, and its events are the summaries, in order, of the maximal runs of
  readings that satisfy the test of the loop. No run is empty, and the members of the runs,
  read in order, are exactly the readings of the table with
  \<open>diff_lps > threshold\<close>, or \<open>soma_sensores_lps = 0\<close> and \<open>geral_lps > 0\<close>: a reading
  belongs to an emitted event exactly when that predicate holds on it.
\<close>

theorem detect_leaks_membership:
  "\<exists>evs. detect_leaks th df = Inr evs
     \<and> map Inr evs = map summarize (maximal_runs (anomalous th) df)
     \<and> [] \<notin> set (maximal_runs (anomalous th) df)
     \<and> concat (maximal_runs (anomalous th) df) =
         filter (\<lambda>r. diff_lps r > th \<or> (soma_sensores_lps r = 0 \<and> geral_lps r > 0)) df"
proof -
  have "anomalous th = (\<lambda>r. diff_lps r > th \<or> (soma_sensores_lps r = 0 \<and> geral_lps r > 0))"
    by (rule ext) (simp add: anomalous_def is_mismatch_def is_hidden_leak_def)
  then have "concat (maximal_runs (anomalous th) df) =
         filter (\<lambda>r. diff_lps r > th \<or> (soma_sensores_lps r = 0 \<and> geral_lps r > 0)) df"
    using maximal_runs_concat[of "anomalous th" df] by simp
  then show ?thesis
    using detect_leaks_refines[of th df] maximal_runs_nonempty[of "anomalous th" df]
    by blast
qed

section \<open>The end of the stream\<close>

text \<open>
  Claim C3. When the table is not empty and its last reading satisfies the test, the
  detector returns at least one event, and the last event ends at the timestamp of the last
  reading: it is the summary of the run still open, the longest suffix of the table whose
  readings all satisfy the test.
\<close>

theorem detect_leaks_closes_open_run:
  assumes "df \<noteq> []" and "anomalous th (last df)"
  shows "\<exists>evs. detect_leaks th df = Inr evs \<and> evs \<noteq> []
           \<and> ev_end (last evs) = ts (last df)
           \<and> summarize (rev (takeWhile (anomalous th) (rev df))) = Inr (last evs)"
proof -
  let ?runs = "maximal_runs (anomalous th) df"
  obtain evs where d: "detect_leaks th df = Inr evs" and m: "map Inr evs = map summarize ?runs"
    using detect_leaks_refines by blast
  have r: "?runs \<noteq> []" "last ?runs = rev (takeWhile (anomalous th) (rev df))"
    using maximal_runs_last[where P = "anomalous th" and xs = df] assms by simp_all
  have len: "length evs = length ?runs"
    using m by (metis length_map)
  then have e: "evs \<noteq> []"
    using r(1) by auto
  have "Inr (last evs) = last (map Inr evs)"
    using e by (simp add: last_map)
  also have "\<dots> = last (map summarize ?runs)"
    by (simp only: m)
  also have "\<dots> = summarize (last ?runs)"
    using r(1) by (simp add: last_map)
  finally have s: "summarize (last ?runs) = Inr (last evs)"
    by simp
  have "last ?runs \<in> set ?runs"
    using r(1) by simp
  then have lne: "last ?runs \<noteq> []"
    using maximal_runs_nonempty[of "anomalous th" df] by auto
  obtain y ys where rv: "rev df = y # ys"
    using assms(1) by (cases "rev df") auto
  then have y: "y = last df"
    using assms(1) by (metis hd_rev list.sel(1))
  then have "takeWhile (anomalous th) (y # ys) = y # takeWhile (anomalous th) ys"
    using assms(2) by simp
  then have "takeWhile (anomalous th) (rev df) = y # takeWhile (anomalous th) ys"
    by (simp only: rv)
  then have "last (last ?runs) = y"
    by (simp add: r(2))
  then have "ev_end (last evs) = ts (last df)"
    using summarize_fields(2)[OF s lne] y by simp
  then show ?thesis
    using d e s r(2) by simp
qed

theorem detect_leaks_closes_open_run_witness:
  "[scenario_row 0 0, scenario_row 1 1, scenario_row 2 1] \<noteq> []
   \<and> anomalous (2 / 10) (last [scenario_row 0 0, scenario_row 1 1, scenario_row 2 1])
   \<and> (\<exists>evs. detect_leaks (2 / 10) [scenario_row 0 0, scenario_row 1 1, scenario_row 2 1] = Inr evs
         \<and> evs \<noteq> [] \<and> ev_end (last evs) = 2)"
proof -
  let ?df = "[scenario_row 0 0, scenario_row 1 1, scenario_row 2 1]"
  have h1: "?df \<noteq> []"
    by simp
  have h2: "anomalous (2 / 10) (last ?df)"
    by (simp add: anomalous_def is_mismatch_def is_hidden_leak_def scenario_row_def)
  have "ts (last ?df) = 2"
    by (simp add: scenario_row_def)
  then show ?thesis
    using detect_leaks_closes_open_run[OF h1 h2] h1 h2 by auto
qed

section \<open>The type of an event\<close>

text \<open>
  Claim C4. Event by event, with the run it summarizes: the type is \<open>hidden_leak\<close> if
  every member of the run has \<open>soma_sensores_lps = 0\<close> and some member has
  \<open>geral_lps > 0\<close>, and \<open>mismatch\<close> otherwise; in particular a run with a member whose
  sensor sum is not zero is a \<open>mismatch\<close>.
\<close>

theorem leak_event_type:
  "\<exists>evs. detect_leaks th df = Inr evs
     \<and> list_all2 (\<lambda>ev run.
          ev_type ev =
            (if (\<forall>r\<in>set run. soma_sensores_lps r = 0) \<and> (\<exists>r\<in>set run. geral_lps r > 0)
             then hidden_leak else mismatch)
          \<and> ((\<exists>r\<in>set run. soma_sensores_lps r \<noteq> 0) \<longrightarrow> ev_type ev = mismatch))
        evs (maximal_runs (anomalous th) df)"
proof -
  let ?runs = "maximal_runs (anomalous th) df"
  obtain evs where d: "detect_leaks th df = Inr evs" and m: "map Inr evs = map summarize ?runs"
    using detect_leaks_refines by blast
  have "list_all2 (\<lambda>ev run.
          ev_type ev =
            (if (\<forall>r\<in>set run. soma_sensores_lps r = 0) \<and> (\<exists>r\<in>set run. geral_lps r > 0)
             then hidden_leak else mismatch)
          \<and> ((\<exists>r\<in>set run. soma_sensores_lps r \<noteq> 0) \<longrightarrow> ev_type ev = mismatch))
        evs ?runs"
  proof (rule list_all2_summarize[OF m])
    fix ev run
    assume a: "run \<in> set ?runs" and s: "summarize run = Inr ev"
    have ne: "run \<noteq> []"
      using a maximal_runs_nonempty[of "anomalous th" df] by auto
    have t: "ev_type ev =
            (if (\<forall>r\<in>set run. soma_sensores_lps r = 0) \<and> (\<exists>r\<in>set run. geral_lps r > 0)
             then hidden_leak else mismatch)"
      by (rule summarize_fields(6)[OF s ne])
    then have "(\<exists>r\<in>set run. soma_sensores_lps r \<noteq> 0) \<longrightarrow> ev_type ev = mismatch"
      by auto
    with t show "ev_type ev =
            (if (\<forall>r\<in>set run. soma_sensores_lps r = 0) \<and> (\<exists>r\<in>set run. geral_lps r > 0)
             then hidden_leak else mismatch)
          \<and> ((\<exists>r\<in>set run. soma_sensores_lps r \<noteq> 0) \<longrightarrow> ev_type ev = mismatch)"
      by (rule conjI)
  qed
  then show ?thesis
    using d by blast
qed

theorem leak_event_type_witness:
  "\<exists>evs. detect_leaks (2 / 10)
       [scenario_row 0 1, scenario_row 1 0,
        (scenario_row 2 1)\<lparr> s1 := 1 / 2, soma_sensores_lps := 1 / 2, diff_lps := 1 / 2 \<rparr>] = Inr evs
     \<and> map ev_type evs = [hidden_leak, mismatch]"
proof -
  let ?m = "(scenario_row 2 1)\<lparr> s1 := 1 / 2, soma_sensores_lps := 1 / 2, diff_lps := 1 / 2 \<rparr>"
  let ?df = "[scenario_row 0 1, scenario_row 1 0, ?m]"
  have runs: "maximal_runs (anomalous (2 / 10)) ?df = [[scenario_row 0 1], [?m]]"
    by (simp add: anomalous_def is_mismatch_def is_hidden_leak_def scenario_row_def)
  show ?thesis
    using leak_event_type[of "2 / 10" ?df] unfolding runs
    by (auto simp: list_all2_Cons2 scenario_row_def)
qed

section \<open>The fields of an event\<close>

text \<open>
  Claim C5. Event by event, with the run it summarizes: the run is not empty and all its
  members satisfy the test (the reading that closes the run is no member); the event starts
  at the first member and ends at the last member of the run; its duration is end minus
  start when the run has more than one member and the elapsed seconds of the single member
  otherwise; its peak is the maximum of \<open>diff_lps\<close> and its volume the sum of
  \<open>volume_geral_l\<close> over the members.
\<close>

theorem leak_event_fields:
  "\<exists>evs. detect_leaks th df = Inr evs
     \<and> list_all2 (\<lambda>ev run.
          run \<noteq> [] \<and> (\<forall>r\<in>set run. anomalous th r)
          \<and> ev_start ev = ts (hd run)
          \<and> ev_end ev = ts (last run)
          \<and> duration_s ev = (if length run > 1 then ev_end ev - ev_start ev else delta_s (hd run))
          \<and> max_diff_lps ev = Max (diff_lps ` set run)
          \<and> volume_l ev = (\<Sum>r\<leftarrow>run. volume_geral_l r))
        evs (maximal_runs (anomalous th) df)"
proof -
  let ?runs = "maximal_runs (anomalous th) df"
  obtain evs where d: "detect_leaks th df = Inr evs" and m: "map Inr evs = map summarize ?runs"
    using detect_leaks_refines by blast
  have "list_all2 (\<lambda>ev run.
          run \<noteq> [] \<and> (\<forall>r\<in>set run. anomalous th r)
          \<and> ev_start ev = ts (hd run)
          \<and> ev_end ev = ts (last run)
          \<and> duration_s ev = (if length run > 1 then ev_end ev - ev_start ev else delta_s (hd run))
          \<and> max_diff_lps ev = Max (diff_lps ` set run)
          \<and> volume_l ev = (\<Sum>r\<leftarrow>run. volume_geral_l r))
        evs ?runs"
  proof (rule list_all2_summarize[OF m])
    fix ev run
    assume a: "run \<in> set ?runs" and s: "summarize run = Inr ev"
    have ne: "run \<noteq> []"
      using a maximal_runs_nonempty[of "anomalous th" df] by auto
    have al: "\<forall>r\<in>set run. anomalous th r"
    proof
      fix r
      assume "r \<in> set run"
      with a show "anomalous th r" by (rule maximal_runs_all)
    qed
    have f1: "ev_start ev = ts (hd run)"
      by (rule summarize_fields(1)[OF s ne])
    have f2: "ev_end ev = ts (last run)"
      by (rule summarize_fields(2)[OF s ne])
    have f3: "duration_s ev =
        (if length run > 1 then ts (last run) - ts (hd run) else delta_s (hd run))"
      by (rule summarize_fields(3)[OF s ne])
    have f4: "max_diff_lps ev = Max (diff_lps ` set run)"
      by (rule summarize_fields(4)[OF s ne])
    have f5: "volume_l ev = (\<Sum>r\<leftarrow>run. volume_geral_l r)"
      by (rule summarize_fields(5)[OF s ne])
    have du: "duration_s ev =
        (if length run > 1 then ev_end ev - ev_start ev else delta_s (hd run))"
      unfolding f1 f2 by (rule f3)
    show "run \<noteq> [] \<and> (\<forall>r\<in>set run. anomalous th r)
          \<and> ev_start ev = ts (hd run)
          \<and> ev_end ev = ts (last run)
          \<and> duration_s ev = (if length run > 1 then ev_end ev - ev_start ev else delta_s (hd run))
          \<and> max_diff_lps ev = Max (diff_lps ` set run)
          \<and> volume_l ev = (\<Sum>r\<leftarrow>run. volume_geral_l r)"
      by (intro conjI ne al f1 f2 du f4 f5)
  qed
  then show ?thesis
    using d by blast
qed

theorem leak_event_fields_witness:
  "\<exists>evs. detect_leaks (2 / 10)
       [scenario_row 5 1, (scenario_row 8 3)\<lparr> delta_s := 3, volume_geral_l := 9 \<rparr>,
        scenario_row 9 0, (scenario_row 12 2)\<lparr> delta_s := 3, volume_geral_l := 6 \<rparr>] = Inr evs
     \<and> map ev_start evs = [5, 12] \<and> map ev_end evs = [8, 12]
     \<and> map duration_s evs = [3, 3] \<and> map max_diff_lps evs = [3, 2]
     \<and> map volume_l evs = [10, 6]"
proof -
  let ?a = "(scenario_row 8 3)\<lparr> delta_s := 3, volume_geral_l := 9 \<rparr>"
  let ?b = "(scenario_row 12 2)\<lparr> delta_s := 3, volume_geral_l := 6 \<rparr>"
  let ?df = "[scenario_row 5 1, ?a, scenario_row 9 0, ?b]"
  have runs: "maximal_runs (anomalous (2 / 10)) ?df = [[scenario_row 5 1, ?a], [?b]]"
    by (simp add: anomalous_def is_mismatch_def is_hidden_leak_def scenario_row_def)
  show ?thesis
    using leak_event_fields[of "2 / 10" ?df] unfolding runs
    by (auto simp: list_all2_Cons2 scenario_row_def)
qed

section \<open>The derived columns\<close>

lemma length_diff_fillna: "length (diff_fillna tsl) = length tsl"
  by (cases tsl) simp_all

lemma nth_diff_fillna:
  "i < length tsl \<Longrightarrow> diff_fillna tsl ! i = (if i = 0 then 1 else tsl ! i - tsl ! (i - 1))"
proof (cases tsl)
  case Nil
  then show "i < length tsl \<Longrightarrow> ?thesis" by simp
next
  case (Cons t rest)
  then show "i < length tsl \<Longrightarrow> ?thesis" by (cases i) simp_all
qed

lemma nth_preprocess:
  assumes "i < length df"
  shows "preprocess df ! i =
    derive (df ! i) (if i = 0 then 1 else timestamp (df ! i) - timestamp (df ! (i - 1)))"
proof -
  have ne: "df \<noteq> []"
    using assms by auto
  have "preprocess df ! i = derive (df ! i) (diff_fillna (map timestamp df) ! i)"
    using assms ne by (simp add: preprocess_def length_diff_fillna)
  also have "diff_fillna (map timestamp df) ! i =
      (if i = 0 then 1 else timestamp (df ! i) - timestamp (df ! (i - 1)))"
    using assms by (simp add: nth_diff_fillna)
  finally show ?thesis .
qed

text \<open>
  Claim C6. For every table of readings (ordered or not), \<^verbatim>\<open>preprocess\<close> returns a table
  of the same length, and in row \<open>i\<close>: the index is kept; \<open>geral_lps\<close> is the general flow,
  0 where it is no number, divided by 60; \<open>soma_sensores_lps\<close> is the sum of the four
  sensors, 0 where they are no number; \<open>delta_s\<close> is 1 in row 0 and the difference to the
  timestamp of row \<open>i - 1\<close> otherwise; \<open>volume_geral_l\<close> and \<open>volume_sensores_l\<close> are the
  two rates times \<open>delta_s\<close>; \<open>diff_lps\<close> is the absolute difference of the two rates.
\<close>

theorem preprocess_columns:
  "length (preprocess df) = length df
   \<and> (\<forall>i<length df.
        ts (preprocess df ! i) = timestamp (df ! i)
      \<and> geral_lps (preprocess df ! i) =
          (case vazao_lmin (df ! i) of Num x \<Rightarrow> x | NonNum \<Rightarrow> 0) / 60
      \<and> soma_sensores_lps (preprocess df ! i) =
          (case raw_s1 (df ! i) of Num x \<Rightarrow> x | NonNum \<Rightarrow> 0)
          + (case raw_s2 (df ! i) of Num x \<Rightarrow> x | NonNum \<Rightarrow> 0)
          + (case raw_s3 (df ! i) of Num x \<Rightarrow> x | NonNum \<Rightarrow> 0)
          + (case raw_s4 (df ! i) of Num x \<Rightarrow> x | NonNum \<Rightarrow> 0)
      \<and> delta_s (preprocess df ! i) =
          (if i = 0 then 1 else timestamp (df ! i) - timestamp (df ! (i - 1)))
      \<and> volume_geral_l (preprocess df ! i) =
          geral_lps (preprocess df ! i) * delta_s (preprocess df ! i)
      \<and> volume_sensores_l (preprocess df ! i) =
          soma_sensores_lps (preprocess df ! i) * delta_s (preprocess df ! i)
      \<and> diff_lps (preprocess df ! i) =
          \<bar>geral_lps (preprocess df ! i) - soma_sensores_lps (preprocess df ! i)\<bar>)"
proof (intro conjI allI impI)
  show "length (preprocess df) = length df"
    by (simp add: preprocess_def length_diff_fillna)
next
  fix i
  assume i: "i < length df"
  note p = nth_preprocess[OF i]
  show "ts (preprocess df ! i) = timestamp (df ! i)"
    by (simp add: p derive_def Let_def)
  show "geral_lps (preprocess df ! i) =
          (case vazao_lmin (df ! i) of Num x \<Rightarrow> x | NonNum \<Rightarrow> 0) / 60"
    by (simp add: p derive_def Let_def to_numeric_fillna_def)
  show "soma_sensores_lps (preprocess df ! i) =
          (case raw_s1 (df ! i) of Num x \<Rightarrow> x | NonNum \<Rightarrow> 0)
          + (case raw_s2 (df ! i) of Num x \<Rightarrow> x | NonNum \<Rightarrow> 0)
          + (case raw_s3 (df ! i) of Num x \<Rightarrow> x | NonNum \<Rightarrow> 0)
          + (case raw_s4 (df ! i) of Num x \<Rightarrow> x | NonNum \<Rightarrow> 0)"
    by (simp add: p derive_def Let_def to_numeric_fillna_def)
  show "delta_s (preprocess df ! i) =
          (if i = 0 then 1 else timestamp (df ! i) - timestamp (df ! (i - 1)))"
    by (simp add: p derive_def Let_def)
  show "volume_geral_l (preprocess df ! i) =
          geral_lps (preprocess df ! i) * delta_s (preprocess df ! i)"
    by (simp add: p derive_def Let_def)
  show "volume_sensores_l (preprocess df ! i) =
          soma_sensores_lps (preprocess df ! i) * delta_s (preprocess df ! i)"
    by (simp add: p derive_def Let_def)
  show "diff_lps (preprocess df ! i) =
          \<bar>geral_lps (preprocess df ! i) - soma_sensores_lps (preprocess df ! i)\<bar>"
    by (simp add: p derive_def Let_def)
qed

theorem preprocess_columns_witness:
  "(1::nat) < length example_table
   \<and> length (preprocess example_table) = 2
   \<and> ts (preprocess example_table ! 1) = 15
   \<and> geral_lps (preprocess example_table ! 1) = 0
   \<and> soma_sensores_lps (preprocess example_table ! 1) = 1
   \<and> delta_s (preprocess example_table ! 1) = 5
   \<and> volume_geral_l (preprocess example_table ! 1) = 0
   \<and> volume_sensores_l (preprocess example_table ! 1) = 5
   \<and> diff_lps (preprocess example_table ! 1) = 1"
proof -
  have i: "(1::nat) < length example_table"
    by (simp add: example_table_def)
  have len: "length (preprocess example_table) = 2"
    using preprocess_columns[of example_table, THEN conjunct1]
    by (simp add: example_table_def)
  note row = preprocess_columns[of example_table, THEN conjunct2, rule_format, OF i]
  have t: "ts (preprocess example_table ! 1) = 15"
    using row by (simp add: example_table_def)
  have g: "geral_lps (preprocess example_table ! 1) = 0"
    using row by (simp add: example_table_def)
  have s: "soma_sensores_lps (preprocess example_table ! 1) = 1"
    using row by (simp add: example_table_def)
  have d: "delta_s (preprocess example_table ! 1) = 5"
    using row by (simp add: example_table_def)
  have vg: "volume_geral_l (preprocess example_table ! 1) = 0"
    using row g d by simp
  have vs: "volume_sensores_l (preprocess example_table ! 1) = 5"
    using row s d by simp
  have df: "diff_lps (preprocess example_table ! 1) = 1"
    using row g s by simp
  show ?thesis
    by (intro conjI i len t g s d vg vs df)
qed

section \<open>Empty input\<close>

text \<open>
  Claim C9. With no file at the path \<^verbatim>\<open>load_data\<close> returns an empty table and does not
  raise; \<^verbatim>\<open>preprocess\<close>, \<^verbatim>\<open>aggregate_period\<close>
  (for every rule) and \<^verbatim>\<open>detect_leaks\<close> (for every threshold) map the empty table to an
  empty result, the last without raising.
\<close>

theorem empty_input_empty_output:
  "load_data None = Inr []
   \<and> preprocess [] = []
   \<and> aggregate_period f [] = []
   \<and> detect_leaks th [] = Inr []
   \<and> detect_leaks th (preprocess []) = Inr []
   \<and> aggregate_period f (preprocess []) = []"
  by (simp add: load_data_def preprocess_def aggregate_period_def detect_leaks_def)

section \<open>The argument of preprocess\<close>

text \<open>
  Claim C10. Called with a reference to a table of the store, \<^verbatim>\<open>preprocess\<close> returns, and
  every table that existed before the call, the argument among them, has the same content
  after it. On a table without rows the result is the argument itself and the store is
  unchanged; otherwise the result is a new table that holds the derived rows.
\<close>

theorem preprocess_leaves_argument:
  assumes "df < length h"
  shows "\<exists>h' out. preprocess_obj h df = Some (h', out)
           \<and> h' ! df = h ! df
           \<and> (\<forall>a<length h. h' ! a = h ! a)
           \<and> (if frame_rows (h ! df) = [] then out = df \<and> h' = h
               else out = length h \<and> length h' = Suc (length h)
                    \<and> h' ! out = DerivedFrame (preprocess (frame_rows (h ! df))))"
proof (cases "frame_rows (h ! df) = []")
  case True
  then show ?thesis
    using assms by (simp add: preprocess_obj_def)
next
  case False
  let ?h' = "(h @ [h ! df])[length h := DerivedFrame (preprocess (frame_rows (h ! df)))]"
  have p: "preprocess_obj h df = Some (?h', length h)"
    using assms False by (simp add: preprocess_obj_def df_copy_def df_assign_def)
  have old: "\<forall>a<length h. ?h' ! a = h ! a"
    by (simp add: nth_append)
  then have arg: "?h' ! df = h ! df"
    using assms by blast
  have new: "?h' ! length h = DerivedFrame (preprocess (frame_rows (h ! df)))"
    by simp
  have len: "length ?h' = Suc (length h)"
    by simp
  show ?thesis
    using False p old arg new len by simp
qed

theorem preprocess_leaves_argument_witness:
  "(0::nat) < length [RawFrame example_table]
   \<and> (\<exists>h' out. preprocess_obj [RawFrame example_table] 0 = Some (h', out)
         \<and> out = 1 \<and> h' ! 0 = RawFrame example_table
         \<and> h' ! out = DerivedFrame (preprocess example_table))"
proof -
  have h: "(0::nat) < length [RawFrame example_table]"
    by simp
  have ne: "frame_rows ([RawFrame example_table] ! 0) \<noteq> []"
    by (simp add: example_table_def)
  show ?thesis
    using preprocess_leaves_argument[OF h] h ne by auto
qed

section \<open>A timestamp that does not parse\<close>

text \<open>
  Claim C7, at a failing input. A file with two rows, the second with a timestamp that
  \<^verbatim>\<open>pd.to_datetime\<close> cannot parse: \<^verbatim>\<open>load_data\<close> raises; it does not return the first
  row alone.
\<close>

theorem load_data_unparseable_timestamp:
  "load_data (Some
     [\<lparr> csv_timestamp = Parsed 10, csv_pulsos = Num 3, csv_vazao = Some (Num 60),
         csv_s1 = Some (Num 1), csv_s2 = Some (Num 0), csv_s3 = Some (Num 0),
         csv_s4 = Some (Num 0) \<rparr>,
      \<lparr> csv_timestamp = Unparseable, csv_pulsos = Num 4, csv_vazao = Some (Num 60),
         csv_s1 = Some (Num 1), csv_s2 = Some (Num 0), csv_s3 = Some (Num 0),
         csv_s4 = Some (Num 0) \<rparr>]) = Inl ValueError"
  by (simp add: load_data_def)

section \<open>The aggregated table\<close>

text \<open>
  Claim C8, as stated, at a failing input. One reading at timestamp 0 (Thursday
  1970-01-01 00:00) with volume 1, aggregated by week: the table has one bucket, it holds
  the reading (its volume is the reading's), and its key is 259200, Sunday 1970-01-04 00:00,
  three days after the reading. The key is not the start of the bucket.
\<close>

theorem aggregate_period_week_keyed_by_end:
  "map bucket_key (aggregate_period W_semana [scenario_row 0 1]) = [259200]
   \<and> map agg_volume_geral_l (aggregate_period W_semana [scenario_row 0 1])
       = [volume_geral_l (scenario_row 0 1)]
   \<and> volume_geral_l (scenario_row 0 1) = 1
   \<and> ts (scenario_row 0 1) = 0"
  by (simp add: aggregate_period_def bucket_def day_of_def scenario_row_def)

text \<open>
  Claim C8, amended. For every table and every rule, in every bucket of the result
  \<open>volume_geral_l\<close> and \<open>volume_sensores_l\<close> are summed over the readings of the bucket,
  \<open>m3\<close> is the general volume divided by 1000 and the cost is \<open>m3\<close> times the tariff of
  the configuration. The readings of a bucket are those from its first instant up to its
  limit. For the rules minute, hour and day the key of a bucket is its first instant, and
  the limit is one minute, hour or day later. For the rule week the key is a Sunday at
  00:00, the first instant is the Monday six days before and the limit is one day after
  the key. For the rule month the key is the last day of a month at 00:00, the first
  instant is the first day of the same month and the limit is one day after the key.
  Every reading of the table is in a bucket of the result.
\<close>

theorem aggregate_period_buckets:
  "(\<forall>b\<in>set (aggregate_period f df).
       agg_volume_geral_l b = (\<Sum>r\<leftarrow>filter (in_bucket f (bucket_key b)) df. volume_geral_l r)
     \<and> agg_volume_sensores_l b =
         (\<Sum>r\<leftarrow>filter (in_bucket f (bucket_key b)) df. volume_sensores_l r)
     \<and> m3 b = agg_volume_geral_l b / 1000
     \<and> custo b = m3 b * TARIFA_POR_M3
     \<and> (f = T_minuto \<longrightarrow>
           bucket_first f (bucket_key b) = bucket_key b
         \<and> bucket_limit f (bucket_key b) = bucket_key b + 60)
     \<and> (f = H_hora \<longrightarrow>
           bucket_first f (bucket_key b) = bucket_key b
         \<and> bucket_limit f (bucket_key b) = bucket_key b + 3600)
     \<and> (f = D_dia \<longrightarrow>
           bucket_first f (bucket_key b) = bucket_key b
         \<and> bucket_limit f (bucket_key b) = bucket_key b + 86400)
     \<and> (f = W_semana \<longrightarrow>
           bucket_key b = 86400 * of_int (day_of (bucket_key b))
         \<and> weekday (day_of (bucket_key b)) = 6
         \<and> bucket_first f (bucket_key b) = bucket_key b - 6 * 86400
         \<and> weekday (day_of (bucket_first f (bucket_key b))) = 0
         \<and> bucket_limit f (bucket_key b) = bucket_key b + 86400)
     \<and> (f = M_mes \<longrightarrow>
           bucket_key b = 86400 * of_int (day_of (bucket_key b))
         \<and> day_of_month (day_of (bucket_key b)) = month_len (month_index (day_of (bucket_key b)))
         \<and> bucket_first f (bucket_key b) = 86400 * of_int (day_of (bucket_first f (bucket_key b)))
         \<and> day_of_month (day_of (bucket_first f (bucket_key b))) = 1
         \<and> month_index (day_of (bucket_first f (bucket_key b))) =
             month_index (day_of (bucket_key b))
         \<and> bucket_limit f (bucket_key b) = bucket_key b + 86400))
   \<and> (\<forall>r\<in>set df. \<exists>b\<in>set (aggregate_period f df). in_bucket f (bucket_key b) r)"
proof (intro conjI ballI)
  fix b
  assume "b \<in> set (aggregate_period f df)"
  then obtain k where b: "b = bucket f df k"
    by (auto simp: aggregate_period_set split: if_splits)
  have key: "bucket_key b = bin_label f k"
    by (simp add: b bucket_def Let_def)
  note rows = bucket_rows[of f k df]
  show "agg_volume_geral_l b = (\<Sum>r\<leftarrow>filter (in_bucket f (bucket_key b)) df. volume_geral_l r)"
    by (simp add: key rows[symmetric]) (simp add: b bucket_def Let_def)
  show "agg_volume_sensores_l b =
         (\<Sum>r\<leftarrow>filter (in_bucket f (bucket_key b)) df. volume_sensores_l r)"
    by (simp add: key rows[symmetric]) (simp add: b bucket_def Let_def)
  show "m3 b = agg_volume_geral_l b / 1000"
    by (simp add: b bucket_def Let_def)
  show "custo b = m3 b * TARIFA_POR_M3"
    by (simp add: b bucket_def Let_def)
  show "f = T_minuto \<longrightarrow>
           bucket_first f (bucket_key b) = bucket_key b
         \<and> bucket_limit f (bucket_key b) = bucket_key b + 60"
    by simp
  show "f = H_hora \<longrightarrow>
           bucket_first f (bucket_key b) = bucket_key b
         \<and> bucket_limit f (bucket_key b) = bucket_key b + 3600"
    by simp
  show "f = D_dia \<longrightarrow>
           bucket_first f (bucket_key b) = bucket_key b
         \<and> bucket_limit f (bucket_key b) = bucket_key b + 86400"
    by simp
  show "f = W_semana \<longrightarrow>
           bucket_key b = 86400 * of_int (day_of (bucket_key b))
         \<and> weekday (day_of (bucket_key b)) = 6
         \<and> bucket_first f (bucket_key b) = bucket_key b - 6 * 86400
         \<and> weekday (day_of (bucket_first f (bucket_key b))) = 0
         \<and> bucket_limit f (bucket_key b) = bucket_key b + 86400"
  proof
    assume w: "f = W_semana"
    show "bucket_key b = 86400 * of_int (day_of (bucket_key b))
         \<and> weekday (day_of (bucket_key b)) = 6
         \<and> bucket_first f (bucket_key b) = bucket_key b - 6 * 86400
         \<and> weekday (day_of (bucket_first f (bucket_key b))) = 0
         \<and> bucket_limit f (bucket_key b) = bucket_key b + 86400"
      unfolding key w
      by (intro conjI week_label(1) week_label(2) week_label(5) week_label(4) week_label(6))
  qed
  show "f = M_mes \<longrightarrow>
           bucket_key b = 86400 * of_int (day_of (bucket_key b))
         \<and> day_of_month (day_of (bucket_key b)) = month_len (month_index (day_of (bucket_key b)))
         \<and> bucket_first f (bucket_key b) = 86400 * of_int (day_of (bucket_first f (bucket_key b)))
         \<and> day_of_month (day_of (bucket_first f (bucket_key b))) = 1
         \<and> month_index (day_of (bucket_first f (bucket_key b))) =
             month_index (day_of (bucket_key b))
         \<and> bucket_limit f (bucket_key b) = bucket_key b + 86400"
  proof
    assume m: "f = M_mes"
    show "bucket_key b = 86400 * of_int (day_of (bucket_key b))
         \<and> day_of_month (day_of (bucket_key b)) = month_len (month_index (day_of (bucket_key b)))
         \<and> bucket_first f (bucket_key b) = 86400 * of_int (day_of (bucket_first f (bucket_key b)))
         \<and> day_of_month (day_of (bucket_first f (bucket_key b))) = 1
         \<and> month_index (day_of (bucket_first f (bucket_key b))) =
             month_index (day_of (bucket_key b))
         \<and> bucket_limit f (bucket_key b) = bucket_key b + 86400"
      unfolding key m
      by (intro conjI month_label(1) month_label(2) month_label(3) month_label(4)
          month_label(5) month_label(6))
  qed
next
  fix r
  assume r: "r \<in> set df"
  let ?b = "bucket f df (bin_index f (ts r))"
  have "bucket_key ?b = bin_label f (bin_index f (ts r))"
    by (simp add: bucket_def Let_def)
  then have "in_bucket f (bucket_key ?b) r"
    using bin_index_iff[of f "ts r" "bin_index f (ts r)"] by (simp add: in_bucket_def)
  then show "\<exists>b\<in>set (aggregate_period f df). in_bucket f (bucket_key b) r"
    using bucket_of_reading[OF r, of f] by blast
qed

theorem aggregate_period_buckets_witness:
  "last (aggregate_period W_semana [scenario_row 0 1, scenario_row 691200 2])
     \<in> set (aggregate_period W_semana [scenario_row 0 1, scenario_row 691200 2])
   \<and> map bucket_key (aggregate_period W_semana [scenario_row 0 1, scenario_row 691200 2])
       = [259200, 864000]
   \<and> agg_volume_geral_l
       (last (aggregate_period W_semana [scenario_row 0 1, scenario_row 691200 2])) = 2
   \<and> m3 (last (aggregate_period W_semana [scenario_row 0 1, scenario_row 691200 2])) = 2 / 1000
   \<and> custo (last (aggregate_period W_semana [scenario_row 0 1, scenario_row 691200 2]))
       = 2 / 1000 * TARIFA_POR_M3
   \<and> weekday (day_of 864000) = 6
   \<and> bucket_first W_semana 864000 = 345600"
proof -
  let ?df = "[scenario_row 0 1, scenario_row 691200 2]"
  let ?agg = "aggregate_period W_semana ?df"
  have up: "[0..1] = [0, 1::int]"
    by (simp add: upto.simps)
  have keys: "map bucket_key ?agg = [259200, 864000]"
    by (simp add: aggregate_period_def bucket_def scenario_row_def day_of_def up)
  then have ne: "?agg \<noteq> []"
    by auto
  then have mem: "last ?agg \<in> set ?agg"
    by simp
  have "bucket_key (last ?agg) = last (map bucket_key ?agg)"
    using ne by (simp add: last_map)
  then have key: "bucket_key (last ?agg) = 864000"
    by (simp only: keys) simp
  note b = aggregate_period_buckets[of W_semana ?df, THEN conjunct1, rule_format, OF mem]
  note b_vol = b[THEN conjunct1]
  note b_m3 = b[THEN conjunct2, THEN conjunct2, THEN conjunct1]
  note b_custo = b[THEN conjunct2, THEN conjunct2, THEN conjunct2, THEN conjunct1]
  note b_week = b[THEN conjunct2, THEN conjunct2, THEN conjunct2, THEN conjunct2,
      THEN conjunct2, THEN conjunct2, THEN conjunct2, THEN conjunct1, THEN mp, OF refl]
  have v: "agg_volume_geral_l (last ?agg) = 2"
    using b_vol unfolding key by (simp add: in_bucket_def scenario_row_def)
  have m: "m3 (last ?agg) = 2 / 1000"
    using b_m3 v by simp
  have c: "custo (last ?agg) = 2 / 1000 * TARIFA_POR_M3"
    using b_custo m by simp
  have w: "weekday (day_of 864000) = 6"
    using b_week[THEN conjunct2, THEN conjunct1] unfolding key .
  have "bucket_first W_semana 864000 = 864000 - 6 * 86400"
    using b_week[THEN conjunct2, THEN conjunct2, THEN conjunct1] unfolding key .
  then have f: "bucket_first W_semana 864000 = 345600"
    by simp
  show ?thesis
    by (intro conjI mem keys v m c w f)
qed

text \<open>
  The sensor entries of a bucket are the sums of the sensor columns, which hold rates. One
  reading with \<open>s1 = 1\<close> and three elapsed seconds, aggregated by day: the entry of the
  first sensor is 1, while the volume of the sensors in the bucket is 3.
\<close>

lemma aggregate_period_sensor_entry:
  "map agg_s1 (aggregate_period D_dia
      [(scenario_row 0 1)\<lparr> s1 := 1, soma_sensores_lps := 1, delta_s := 3,
         volume_geral_l := 3, volume_sensores_l := 3, diff_lps := 0 \<rparr>]) = [1]
   \<and> map agg_volume_sensores_l (aggregate_period D_dia
      [(scenario_row 0 1)\<lparr> s1 := 1, soma_sensores_lps := 1, delta_s := 3,
         volume_geral_l := 3, volume_sensores_l := 3, diff_lps := 0 \<rparr>]) = [3]"
  by (simp add: aggregate_period_def bucket_def day_of_def scenario_row_def)

end
